theory Spec2Isabelle
  imports Complex_Main "HOL-Library.AList"
begin

section \<open>Data model\<close>

text \<open>
  The corpus is a Python dictionary from page names to the set of pages each one links
  to. A dictionary keeps its keys in insertion order, so it is an association list whose
  keys are pairwise different; the set of out-links is the list of its elements in
  iteration order, without repetition. Probability distributions and rank vectors are
  dictionaries from pages to numbers.

  Python's floats are read as real numbers: every arithmetic operation below is exact.
\<close>

type_synonym page = string
type_synonym corpus = "(page \<times> page list) list"
type_synonym dist = "(page \<times> real) list"

datatype error = ZeroDivisionError | KeyError | IndexError | ValueError

text \<open>A dictionary has no repeated key and a set no repeated element.\<close>

definition wf_corpus :: "corpus \<Rightarrow> bool" where
  "wf_corpus corpus \<longleftrightarrow>
     distinct (map fst corpus) \<and> (\<forall>(p, links) \<in> set corpus. distinct links)"

text \<open>
  The graph invariant of the data model: at least one page, and every out-link points to
  a page of the corpus.
\<close>

definition valid_graph :: "corpus \<Rightarrow> bool" where
  "valid_graph corpus \<longleftrightarrow>
     wf_corpus corpus \<and> corpus \<noteq> [] \<and>
     (\<forall>(p, links) \<in> set corpus. set links \<subseteq> set (map fst corpus))"

text \<open>\<^verbatim>\<open>d[k]\<close>: the value stored under a key, or \<^verbatim>\<open>KeyError\<close>.\<close>

definition getitem :: "('k \<times> 'v) list \<Rightarrow> 'k \<Rightarrow> error + 'v" where
  "getitem d k = (case map_of d k of None \<Rightarrow> Inl KeyError | Some v \<Rightarrow> Inr v)"

text \<open>\<^verbatim>\<open>sum(d.values())\<close>.\<close>

definition sum_values :: "dist \<Rightarrow> real" where
  "sum_values d = sum_list (map snd d)"

section \<open>The transition model\<close>

text \<open>
  The two statements of the second loop of \<^verbatim>\<open>transition_model\<close>,
  \<^verbatim>\<open>dist.setdefault(other_page, 0)\<close> and \<^verbatim>\<open>dist[other_page] += uniform_prob\<close>:
  a page that is not yet a key is entered at the end with \<open>0\<close> and then raised by
  \<open>uniform_prob\<close>; a page that is a key keeps its place and is raised.
\<close>

definition credit :: "dist \<Rightarrow> page \<Rightarrow> real \<Rightarrow> dist" where
  "credit distr other_page uniform_prob =
     (case map_of distr other_page of
        None \<Rightarrow> AList.update other_page (0 + uniform_prob) distr
      | Some v \<Rightarrow> AList.update other_page (v + uniform_prob) distr)"

text \<open>
  The first loop runs only for a page of the corpus that has an out-link; otherwise
  \<^verbatim>\<open>dist\<close> stays empty.
\<close>

definition linked_dist :: "corpus \<Rightarrow> page \<Rightarrow> real \<Rightarrow> dist" where
  "linked_dist corpus page damping_factor =
     (case map_of corpus page of
        None \<Rightarrow> []
      | Some links \<Rightarrow>
          if length links > 0 then
            (let linked_prob = damping_factor / real (length links)
             in fold (\<lambda>linked_page distr. AList.update linked_page linked_prob distr) links [])
          else [])"

text \<open>
  \<^verbatim>\<open>(1 - damping_factor) / num_pages\<close> raises \<^verbatim>\<open>ZeroDivisionError\<close> on the empty
  corpus.
\<close>

definition transition_model :: "corpus \<Rightarrow> page \<Rightarrow> real \<Rightarrow> error + dist" where
  "transition_model corpus page damping_factor =
     (let num_pages = length corpus;
          distr = linked_dist corpus page damping_factor
      in if num_pages = 0 then Inl ZeroDivisionError
         else
           (let uniform_prob = (1 - damping_factor) / real num_pages
            in Inr (fold (\<lambda>other_page distr. credit distr other_page uniform_prob)
                      (map fst corpus) distr)))"

section \<open>The sampling estimator\<close>

text \<open>
  The random source is not part of the repository. A draw is a natural number supplied
  from outside, and the element chosen is the one at position \<open>draw mod length\<close>, so
  every element of the population can be chosen. \<^verbatim>\<open>random.choice\<close> raises
  \<^verbatim>\<open>IndexError\<close> on an empty sequence; \<^verbatim>\<open>random.choices\<close> raises
  \<^verbatim>\<open>ValueError\<close> when the weights do not add up to more than zero.
\<close>

definition choice :: "'a list \<Rightarrow> nat \<Rightarrow> error + 'a" where
  "choice seq r = (if seq = [] then Inl IndexError else Inr (seq ! (r mod length seq)))"

definition choices :: "'a list \<Rightarrow> real list \<Rightarrow> nat \<Rightarrow> error + 'a" where
  "choices population weights r =
     (if population = [] then Inl IndexError
      else if sum_list weights \<le> 0 then Inl ValueError
      else Inr (population ! (r mod length population)))"

text \<open>
  The loop \<^verbatim>\<open>for _ in range(n)\<close>, with the number of rounds left, the draws still to
  come, the current page and the counters. \<^verbatim>\<open>page_rank[page] += 1\<close> raises
  \<^verbatim>\<open>KeyError\<close> for a page that has no counter.
\<close>

fun walk :: "corpus \<Rightarrow> real \<Rightarrow> nat \<Rightarrow> (nat \<Rightarrow> nat) \<Rightarrow> page \<Rightarrow> dist \<Rightarrow> error + dist" where
  "walk corpus damping_factor 0 rnd page page_rank = Inr page_rank"
| "walk corpus damping_factor (Suc k) rnd page page_rank =
     (case transition_model corpus page damping_factor of
        Inl e \<Rightarrow> Inl e
      | Inr transition_probs \<Rightarrow>
          (case choices (map fst transition_probs) (map snd transition_probs) (rnd 0) of
             Inl e \<Rightarrow> Inl e
           | Inr page' \<Rightarrow>
               (case getitem page_rank page' of
                  Inl e \<Rightarrow> Inl e
                | Inr rank \<Rightarrow>
                    walk corpus damping_factor k (\<lambda>i. rnd (Suc i)) page'
                      (AList.update page' (rank + 1) page_rank))))"

text \<open>
  The counters before normalisation: every page starts at \<open>1 / num_pages\<close> (the
  comprehension divides only when the corpus has a page), the start page is drawn, and
  \<^verbatim>\<open>range(n)\<close> makes no round for \<open>n \<le> 0\<close>.
\<close>

definition sample_counts :: "corpus \<Rightarrow> real \<Rightarrow> int \<Rightarrow> (nat \<Rightarrow> nat) \<Rightarrow> error + dist" where
  "sample_counts corpus damping_factor n rnd =
     (let num_pages = length corpus;
          page_rank = map (\<lambda>page. (page, 1 / real num_pages)) (map fst corpus)
      in case choice (map fst corpus) (rnd 0) of
           Inl e \<Rightarrow> Inl e
         | Inr page \<Rightarrow> walk corpus damping_factor (nat n) (\<lambda>i. rnd (Suc i)) page page_rank)"

text \<open>
  The normalisation divides every counter by the sum of all counters; the division
  raises \<^verbatim>\<open>ZeroDivisionError\<close> when there is a counter and the sum is zero.
\<close>

definition normalize :: "dist \<Rightarrow> error + dist" where
  "normalize page_rank =
     (let total_rank = sum_values page_rank
      in if page_rank \<noteq> [] \<and> total_rank = 0 then Inl ZeroDivisionError
         else Inr (map (\<lambda>(page, rank). (page, rank / total_rank)) page_rank))"

definition sample_pagerank :: "corpus \<Rightarrow> real \<Rightarrow> int \<Rightarrow> (nat \<Rightarrow> nat) \<Rightarrow> error + dist" where
  "sample_pagerank corpus damping_factor n rnd =
     (case sample_counts corpus damping_factor n rnd of
        Inl e \<Rightarrow> Inl e
      | Inr page_rank \<Rightarrow> normalize page_rank)"

section \<open>The iterative estimator\<close>

text \<open>
  \<^verbatim>\<open>sum(ranks[q] / len(corpus[q]) for q in corpus if page in corpus[q])\<close>: the pages
  still to visit and the sum so far. A missing key raises \<^verbatim>\<open>KeyError\<close>; the division
  is by the size of a set that contains \<^verbatim>\<open>page\<close>.
\<close>

fun link_sum :: "corpus \<Rightarrow> dist \<Rightarrow> page \<Rightarrow> page list \<Rightarrow> real \<Rightarrow> error + real" where
  "link_sum corpus ranks page [] acc = Inr acc"
| "link_sum corpus ranks page (linked_page # rest) acc =
     (case getitem corpus linked_page of
        Inl e \<Rightarrow> Inl e
      | Inr links \<Rightarrow>
          if page \<in> set links then
            (case getitem ranks linked_page of
               Inl e \<Rightarrow> Inl e
             | Inr rank \<Rightarrow> link_sum corpus ranks page rest (acc + rank / real (length links)))
          else link_sum corpus ranks page rest acc)"

text \<open>
  The loop \<^verbatim>\<open>for page in corpus\<close> of one iteration, with the pages still to visit and
  the pair of \<^verbatim>\<open>new_ranks\<close> and \<^verbatim>\<open>total_diff\<close>. It reads \<^verbatim>\<open>ranks\<close> and writes
  \<^verbatim>\<open>new_ranks\<close>. The loop body runs only when the corpus has a page, so
  \<^verbatim>\<open>num_pages\<close> is not zero in its division.
\<close>

fun update_ranks ::
  "corpus \<Rightarrow> real \<Rightarrow> dist \<Rightarrow> page list \<Rightarrow> dist \<times> real \<Rightarrow> error + dist \<times> real" where
  "update_ranks corpus damping_factor ranks [] (new_ranks, total_diff) =
     Inr (new_ranks, total_diff)"
| "update_ranks corpus damping_factor ranks (page # rest) (new_ranks, total_diff) =
     (case link_sum corpus ranks page (map fst corpus) 0 of
        Inl e \<Rightarrow> Inl e
      | Inr s \<Rightarrow>
          (let new_rank = (1 - damping_factor) / real (length corpus) + damping_factor * s;
               new_ranks' = AList.update page new_rank new_ranks
           in case getitem ranks page of
                Inl e \<Rightarrow> Inl e
              | Inr rank \<Rightarrow>
                  update_ranks corpus damping_factor ranks rest
                    (new_ranks', total_diff + \<bar>new_rank - rank\<bar>)))"

definition threshold :: real where
  "threshold = 5 / 10000"

text \<open>
  The loop \<^verbatim>\<open>while True\<close>. It may run forever, so its result is an option and
  \<open>None\<close> stands for a run that does not return.
\<close>

partial_function (option) iterate_loop :: "corpus \<Rightarrow> real \<Rightarrow> dist \<Rightarrow> (error + dist) option" where
  "iterate_loop corpus damping_factor ranks =
     (case update_ranks corpus damping_factor ranks (map fst corpus) ([], 0) of
        Inl e \<Rightarrow> Some (Inl e)
      | Inr (new_ranks, total_diff) \<Rightarrow>
          if total_diff < threshold then Some (Inr ranks)
          else iterate_loop corpus damping_factor new_ranks)"

declare iterate_loop.simps [code]

text \<open>\<^verbatim>\<open>initial_rank = 1 / num_pages\<close> raises \<^verbatim>\<open>ZeroDivisionError\<close> on the empty corpus.\<close>

definition iterate_pagerank :: "corpus \<Rightarrow> real \<Rightarrow> (error + dist) option" where
  "iterate_pagerank corpus damping_factor =
     (let num_pages = length corpus
      in if num_pages = 0 then Some (Inl ZeroDivisionError)
         else
           (let initial_rank = 1 / real num_pages;
                ranks = map (\<lambda>page. (page, initial_rank)) (map fst corpus)
            in iterate_loop corpus damping_factor ranks))"

section \<open>The update rule in the words of the specification\<close>

text \<open>
  The out-link set of a page and the rank of a page in a rank vector, as the
  specification speaks of them.
\<close>

definition out_links :: "corpus \<Rightarrow> page \<Rightarrow> page set" where
  "out_links corpus q = (case map_of corpus q of None \<Rightarrow> {} | Some links \<Rightarrow> set links)"

definition rank_of :: "dist \<Rightarrow> page \<Rightarrow> real" where
  "rank_of ranks q = (case map_of ranks q of None \<Rightarrow> 0 | Some r \<Rightarrow> r)"

text \<open>
  The specification's rule for one page:
  \<open>new_rank(p) = (1 - damping) / N + damping * \<Sum>\<close> over the pages \<open>q\<close> that link to
  \<open>p\<close> of \<open>rank(q) / out_degree(q)\<close>, with \<open>N\<close> the number of distinct pages.
\<close>

definition spec_new_rank :: "corpus \<Rightarrow> real \<Rightarrow> dist \<Rightarrow> page \<Rightarrow> real" where
  "spec_new_rank corpus damping ranks p =
     (1 - damping) / real (card (set (map fst corpus))) +
     damping * (\<Sum>q \<in> {q \<in> set (map fst corpus). p \<in> out_links corpus q}.
                  rank_of ranks q / real (card (out_links corpus q)))"

text \<open>The new rank vector, one entry for every page of the corpus.\<close>

definition spec_new_ranks :: "corpus \<Rightarrow> real \<Rightarrow> dist \<Rightarrow> dist" where
  "spec_new_ranks corpus damping ranks =
     map (\<lambda>p. (p, spec_new_rank corpus damping ranks p)) (map fst corpus)"

text \<open>The total absolute change \<open>\<Sum>\<^sub>p |new_rank(p) - rank(p)|\<close>.\<close>

definition spec_total_change :: "corpus \<Rightarrow> real \<Rightarrow> dist \<Rightarrow> real" where
  "spec_total_change corpus damping ranks =
     (\<Sum>p \<leftarrow> map fst corpus. \<bar>spec_new_rank corpus damping ranks p - rank_of ranks p\<bar>)"

section \<open>Counting the iterations\<close>

text \<open>
  The loop of \<^verbatim>\<open>iterate_pagerank\<close> with a budget of iterations: the same body, and
  \<open>None\<close> when the budget is used up before the loop stops.
\<close>

fun iterate_bounded :: "nat \<Rightarrow> corpus \<Rightarrow> real \<Rightarrow> dist \<Rightarrow> (error + dist) option" where
  "iterate_bounded 0 corpus damping_factor ranks = None"
| "iterate_bounded (Suc fuel) corpus damping_factor ranks =
     (case update_ranks corpus damping_factor ranks (map fst corpus) ([], 0) of
        Inl e \<Rightarrow> Some (Inl e)
      | Inr (new_ranks, total_diff) \<Rightarrow>
          if total_diff < threshold then Some (Inr ranks)
          else iterate_bounded fuel corpus damping_factor new_ranks)"

section \<open>Dictionary updates\<close>

lemma sum_values_Nil: "sum_values [] = 0"
  by (simp add: sum_values_def)

lemma sum_values_update:
  "sum_values (AList.update k v al) =
     sum_values al - (case map_of al k of None \<Rightarrow> 0 | Some w \<Rightarrow> w) + v"
  by (induction al) (auto simp: sum_values_def)

lemma map_of_credit:
  "map_of (credit d p u) q =
     (if q = p then Some ((case map_of d p of None \<Rightarrow> 0 | Some v \<Rightarrow> v) + u) else map_of d q)"
  by (auto simp: credit_def update_conv' split: option.splits)

lemma keys_credit: "fst ` set (credit d p u) = insert p (fst ` set d)"
  by (auto simp: credit_def dom_update split: option.splits)

lemma sum_values_credit: "sum_values (credit d p u) = sum_values d + u"
  by (simp add: credit_def sum_values_update split: option.splits)

lemma map_of_fold_credit:
  "distinct ps \<Longrightarrow>
   map_of (fold (\<lambda>p d. credit d p u) ps d0) q =
     (if q \<in> set ps then Some ((case map_of d0 q of None \<Rightarrow> 0 | Some v \<Rightarrow> v) + u)
      else map_of d0 q)"
  by (induction ps arbitrary: d0) (auto simp: map_of_credit)

lemma keys_fold_credit:
  "fst ` set (fold (\<lambda>p d. credit d p u) ps d0) = fst ` set d0 \<union> set ps"
  by (induction ps arbitrary: d0) (auto simp: keys_credit)

lemma sum_values_fold_credit:
  "sum_values (fold (\<lambda>p d. credit d p u) ps d0) = sum_values d0 + real (length ps) * u"
  by (induction ps arbitrary: d0) (auto simp: sum_values_credit algebra_simps)

lemma map_of_fold_update:
  "map_of (fold (\<lambda>k d. AList.update k v d) ks d0) q =
     (if q \<in> set ks then Some v else map_of d0 q)"
  by (induction ks arbitrary: d0) (auto simp: update_conv')

lemma keys_fold_update:
  "fst ` set (fold (\<lambda>k d. AList.update k v d) ks d0) = fst ` set d0 \<union> set ks"
  by (induction ks arbitrary: d0) (auto simp: dom_update)

lemma sum_values_fold_update:
  "distinct ks \<Longrightarrow> set ks \<inter> fst ` set d0 = {} \<Longrightarrow>
   sum_values (fold (\<lambda>k d. AList.update k v d) ks d0) = sum_values d0 + real (length ks) * v"
proof (induction ks arbitrary: d0)
  case Nil
  then show ?case by simp
next
  case (Cons k ks)
  have none: "map_of d0 k = None"
    using Cons.prems(2) by (auto simp: map_of_eq_None_iff)
  have "set ks \<inter> fst ` set (AList.update k v d0) = {}"
    using Cons.prems by (auto simp: dom_update)
  with Cons have "sum_values (fold (\<lambda>k d. AList.update k v d) ks (AList.update k v d0)) =
      sum_values (AList.update k v d0) + real (length ks) * v"
    by simp
  then show ?case
    by (simp add: sum_values_update none algebra_simps)
qed

section \<open>Properties of the transition model\<close>

lemma linked_dist_sink:
  "map_of corpus page = None \<or> map_of corpus page = Some [] \<Longrightarrow>
   linked_dist corpus page d = []"
  by (auto simp: linked_dist_def)

lemma linked_dist_links:
  "map_of corpus page = Some links \<Longrightarrow> links \<noteq> [] \<Longrightarrow>
   linked_dist corpus page d =
     fold (\<lambda>k distr. AList.update k (d / real (length links)) distr) links []"
  by (simp add: linked_dist_def)

lemma transition_model_Inr:
  "corpus \<noteq> [] \<Longrightarrow>
   transition_model corpus page d =
     Inr (fold (\<lambda>p distr. credit distr p ((1 - d) / real (length corpus)))
            (map fst corpus) (linked_dist corpus page d))"
  by (simp add: transition_model_def)

text \<open>
  What the code returns for a page without out-links, and for a page that is not in the
  corpus: every page gets the share \<open>(1 - damping_factor) / N\<close> of the second loop and
  nothing else, so the values add up to \<open>1 - damping_factor\<close>.
\<close>

lemma transition_model_sink_values:
  assumes "distinct (map fst corpus)" "corpus \<noteq> []"
    and "map_of corpus page = None \<or> map_of corpus page = Some []"
  shows "\<exists>tp. transition_model corpus page d = Inr tp \<and>
           (\<forall>q \<in> set (map fst corpus). map_of tp q = Some ((1 - d) / real (length corpus))) \<and>
           sum_values tp = 1 - d"
proof -
  have ld: "linked_dist corpus page d = []"
    using assms(3) by (rule linked_dist_sink)
  have n: "real (length corpus) \<noteq> 0" using assms(2) by simp
  show ?thesis
    using assms(1) n
    by (simp add: transition_model_Inr [OF assms(2)] ld map_of_fold_credit
        sum_values_fold_credit sum_values_Nil)
qed

text \<open>
  C1. The claim: for a page without out-links, or a page outside the corpus,
  \<^verbatim>\<open>transition_model\<close> returns \<open>1 / N\<close> for every page. The code has no branch for
  that case. On the corpus of the single page \<open>A\<close> without links and the damping factor
  \<open>0.85\<close> it returns \<open>0.15\<close> for \<open>A\<close>, where \<open>1 / N\<close> is \<open>1\<close>.
\<close>

theorem transition_model_sink_not_uniform:
  "transition_model [(''A'', [])] ''A'' (85 / 100) = Inr [(''A'', 15 / 100)] \<and>
   (15 / 100 :: real) \<noteq> 1 / real (length [(''A'', [] :: page list)])"
  by (simp add: transition_model_def linked_dist_def credit_def)

text \<open>
  C2. The claim: on a valid graph, for every page and every damping factor strictly
  between 0 and 1, the values returned by \<^verbatim>\<open>transition_model\<close> add up to 1 within
  \<open>10\<^sup>-\<^sup>9\<close> and the keys are the pages of the corpus. On the three pages
  \<open>A \<rightarrow> B, C\<close>, \<open>B \<rightarrow> C\<close> and \<open>C\<close> without links, asked for the page \<open>C\<close> with the
  damping factor \<open>0.85\<close>, the keys are the three pages and every value is \<open>0.05\<close>: the
  sum is \<open>0.15\<close>.
\<close>

theorem transition_model_sink_sum:
  "transition_model [(''A'', [''B'', ''C'']), (''B'', [''C'']), (''C'', [])] ''C'' (85 / 100) =
     Inr [(''A'', 1 / 20), (''B'', 1 / 20), (''C'', 1 / 20)] \<and>
   sum_values [(''A'', 1 / 20), (''B'', 1 / 20), (''C'', 1 / 20)] = 3 / 20 \<and>
   \<not> \<bar>sum_values [(''A'', 1 / 20), (''B'', 1 / 20), (''C'', 1 / 20)] - 1\<bar> \<le> 1 / 10 ^ 9"
  by (simp add: transition_model_def linked_dist_def credit_def sum_values_def Let_def)

text \<open>
  C7. For a page of a valid graph with at least one out-link, \<^verbatim>\<open>transition_model\<close>
  returns a distribution in which every out-linked page has
  \<open>damping_factor / out_degree + (1 - damping_factor) / N\<close>, every other page of the corpus
  has \<open>(1 - damping_factor) / N\<close>, and, the damping factor being at least 0, every page
  of the corpus has at least \<open>(1 - damping_factor) / N\<close>.
\<close>

theorem transition_model_linked:
  assumes "valid_graph corpus" and "map_of corpus page = Some links" and "links \<noteq> []"
  shows "\<exists>tp. transition_model corpus page d = Inr tp \<and>
           (\<forall>q \<in> set links.
              map_of tp q = Some (d / real (length links) + (1 - d) / real (length corpus))) \<and>
           (\<forall>q \<in> set (map fst corpus) - set links.
              map_of tp q = Some ((1 - d) / real (length corpus))) \<and>
           (0 \<le> d \<longrightarrow>
              (\<forall>q \<in> set (map fst corpus).
                 \<exists>v. map_of tp q = Some v \<and> (1 - d) / real (length corpus) \<le> v))"
proof -
  let ?u = "(1 - d) / real (length corpus)"
  let ?l = "d / real (length links)"
  let ?tp = "fold (\<lambda>p distr. credit distr p ?u) (map fst corpus) (linked_dist corpus page d)"
  have ne: "corpus \<noteq> []" and dk: "distinct (map fst corpus)"
    using assms(1) by (auto simp: valid_graph_def wf_corpus_def)
  have sub: "set links \<subseteq> set (map fst corpus)"
    using assms(1) map_of_SomeD [OF assms(2)] by (fastforce simp: valid_graph_def)
  have tm: "transition_model corpus page d = Inr ?tp"
    by (rule transition_model_Inr [OF ne])
  have ld: "map_of (linked_dist corpus page d) q = (if q \<in> set links then Some ?l else None)" for q
    by (simp add: linked_dist_links [OF assms(2,3)] map_of_fold_update)
  have val: "map_of ?tp q = (if q \<in> set links then Some (?l + ?u) else Some ?u)"
    if "q \<in> set (map fst corpus)" for q
    using that by (simp add: map_of_fold_credit [OF dk] ld)
  have a: "\<forall>q \<in> set links. map_of ?tp q = Some (?l + ?u)"
  proof
    fix q assume q: "q \<in> set links"
    then have "q \<in> set (map fst corpus)" using sub by blast
    from val [OF this] q show "map_of ?tp q = Some (?l + ?u)" by simp
  qed
  have b: "\<forall>q \<in> set (map fst corpus) - set links. map_of ?tp q = Some ?u"
  proof
    fix q assume q: "q \<in> set (map fst corpus) - set links"
    then have "q \<in> set (map fst corpus)" by blast
    from val [OF this] q show "map_of ?tp q = Some ?u" by simp
  qed
  have c: "0 \<le> d \<longrightarrow> (\<forall>q \<in> set (map fst corpus). \<exists>v. map_of ?tp q = Some v \<and> ?u \<le> v)"
  proof (intro impI ballI)
    fix q assume d0: "0 \<le> d" and q: "q \<in> set (map fst corpus)"
    have "0 \<le> ?l" using d0 by simp
    then show "\<exists>v. map_of ?tp q = Some v \<and> ?u \<le> v"
      using val [OF q] by (cases "q \<in> set links") auto
  qed
  show ?thesis using tm a b c by blast
qed

theorem transition_model_linked_witness:
  "valid_graph [(''A'', [''B'', ''C'']), (''B'', [''C'']), (''C'', [])] \<and>
   (\<exists>tp. transition_model [(''A'', [''B'', ''C'']), (''B'', [''C'']), (''C'', [])] ''A''
            (85 / 100) = Inr tp \<and>
      map_of tp ''B'' = Some (19 / 40) \<and> map_of tp ''C'' = Some (19 / 40) \<and>
      map_of tp ''A'' = Some (1 / 20))"
proof -
  let ?G = "[(''A'', [''B'', ''C'']), (''B'', [''C'']), (''C'', [])] :: corpus"
  have v: "valid_graph ?G" by (simp add: valid_graph_def wf_corpus_def)
  have m: "map_of ?G ''A'' = Some [''B'', ''C'']" by simp
  have l: "[''B'', ''C''] \<noteq> ([] :: page list)" by simp
  from transition_model_linked [OF v m l, of "85 / 100"]
  show ?thesis using v by auto
qed

section \<open>Properties of the sampling estimator\<close>

lemma getitem_Inr: "getitem al k = Inr v \<longleftrightarrow> map_of al k = Some v"
  by (simp add: getitem_def split: option.splits)

lemma keys_update_present:
  "map_of al k = Some w \<Longrightarrow> map fst (AList.update k v al) = map fst al"
  by (induction al) (auto split: if_splits)

lemma set_update_subset: "set (AList.update k v al) \<subseteq> insert (k, v) (set al)"
  by (induction al) auto

lemma transition_model_valid:
  assumes "valid_graph corpus"
  shows "\<exists>tp. transition_model corpus page d = Inr tp \<and>
           fst ` set tp = fst ` set corpus \<and>
           sum_values tp =
             (if map_of corpus page = None \<or> map_of corpus page = Some [] then 1 - d else 1)"
proof -
  let ?u = "(1 - d) / real (length corpus)"
  let ?tp = "fold (\<lambda>p distr. credit distr p ?u) (map fst corpus) (linked_dist corpus page d)"
  have ne: "corpus \<noteq> []" and dk: "distinct (map fst corpus)"
    using assms by (auto simp: valid_graph_def wf_corpus_def)
  have n: "real (length corpus) \<noteq> 0" using ne by simp
  have tm: "transition_model corpus page d = Inr ?tp"
    by (rule transition_model_Inr [OF ne])
  show ?thesis
  proof (cases "map_of corpus page = None \<or> map_of corpus page = Some []")
    case True
    then have "linked_dist corpus page d = []" by (rule linked_dist_sink)
    then show ?thesis using True tm n
      by (simp add: keys_fold_credit sum_values_fold_credit sum_values_Nil)
  next
    case False
    then obtain links where m: "map_of corpus page = Some links" and l: "links \<noteq> []"
      by auto
    have mem: "(page, links) \<in> set corpus" using m by (rule map_of_SomeD)
    have sub: "set links \<subseteq> fst ` set corpus"
      using assms mem by (fastforce simp: valid_graph_def)
    have dl: "distinct links"
      using assms mem by (fastforce simp: valid_graph_def wf_corpus_def)
    have ll: "real (length links) \<noteq> 0" using l by simp
    have ld: "linked_dist corpus page d =
        fold (\<lambda>k distr. AList.update k (d / real (length links)) distr) links []"
      by (rule linked_dist_links [OF m l])
    have k: "fst ` set (linked_dist corpus page d) = set links"
      by (simp add: ld keys_fold_update)
    have s: "sum_values (linked_dist corpus page d) = d"
      using ll by (simp add: ld sum_values_fold_update [OF dl] sum_values_Nil)
    have "fst ` set ?tp = fst ` set corpus"
      using sub by (auto simp: keys_fold_credit k)
    moreover have "sum_values ?tp = 1"
      using n by (simp add: sum_values_fold_credit s field_simps)
    ultimately show ?thesis using m l tm by simp
  qed
qed

lemma walk_sum:
  "walk corpus d k rnd page pr = Inr pr' \<Longrightarrow> sum_values pr' = sum_values pr + real k"
proof (induction k arbitrary: rnd page pr)
  case 0
  then show ?case by simp
next
  case (Suc k)
  from Suc.prems obtain tp page' rank where
    g: "getitem pr page' = Inr rank" and
    w: "walk corpus d k (\<lambda>i. rnd (Suc i)) page' (AList.update page' (rank + 1) pr) = Inr pr'"
    by (auto split: sum.splits)
  from g have m: "map_of pr page' = Some rank" by (simp add: getitem_Inr)
  from Suc.IH [OF w] show ?case
    by (simp add: sum_values_update m)
qed

lemma walk_keys:
  "walk corpus d k rnd page pr = Inr pr' \<Longrightarrow> map fst pr' = map fst pr"
proof (induction k arbitrary: rnd page pr)
  case 0
  then show ?case by simp
next
  case (Suc k)
  from Suc.prems obtain tp page' rank where
    g: "getitem pr page' = Inr rank" and
    w: "walk corpus d k (\<lambda>i. rnd (Suc i)) page' (AList.update page' (rank + 1) pr) = Inr pr'"
    by (auto split: sum.splits)
  from g have m: "map_of pr page' = Some rank" by (simp add: getitem_Inr)
  from Suc.IH [OF w] show ?case
    by (simp add: keys_update_present [OF m])
qed

lemma walk_positive:
  "walk corpus d k rnd page pr = Inr pr' \<Longrightarrow> \<forall>v \<in> snd ` set pr. 0 < v \<Longrightarrow>
   \<forall>v \<in> snd ` set pr'. 0 < v"
proof (induction k arbitrary: rnd page pr)
  case 0
  then show ?case by simp
next
  case (Suc k)
  from Suc.prems(1) obtain tp page' rank where
    g: "getitem pr page' = Inr rank" and
    w: "walk corpus d k (\<lambda>i. rnd (Suc i)) page' (AList.update page' (rank + 1) pr) = Inr pr'"
    by (auto split: sum.splits)
  from g have m: "map_of pr page' = Some rank" by (simp add: getitem_Inr)
  then have "(page', rank) \<in> set pr" by (rule map_of_SomeD)
  then have r: "0 < rank" using Suc.prems(2) by force
  have "\<forall>v \<in> snd ` set (AList.update page' (rank + 1) pr). 0 < v"
    using set_update_subset [of page' "rank + 1" pr] Suc.prems(2) r by fastforce
  from Suc.IH [OF w this] show ?case .
qed

lemma sample_counts_Inr:
  assumes "sample_counts corpus d n rnd = Inr counts"
  shows "corpus \<noteq> []" and "map fst counts = map fst corpus"
    and "sum_values counts = 1 + real (nat n)" and "\<forall>v \<in> snd ` set counts. 0 < v"
proof -
  let ?init = "map (\<lambda>page. (page, 1 / real (length corpus))) (map fst corpus)"
  show ne: "corpus \<noteq> []"
    using assms by (auto simp: sample_counts_def choice_def)
  from assms obtain page where
    w: "walk corpus d (nat n) (\<lambda>i. rnd (Suc i)) page ?init = Inr counts"
    by (auto simp: sample_counts_def Let_def split: sum.splits)
  have "map fst ?init = map fst corpus" by (simp add: comp_def)
  with walk_keys [OF w] show "map fst counts = map fst corpus" by simp
  have "sum_values ?init = 1"
    using ne by (simp add: sum_values_def comp_def sum_list_triv)
  with walk_sum [OF w] show "sum_values counts = 1 + real (nat n)" by simp
  have "\<forall>v \<in> snd ` set ?init. 0 < v" using ne by auto
  from walk_positive [OF w this] show "\<forall>v \<in> snd ` set counts. 0 < v" .
qed

lemma sum_values_normalized:
  "sum_values (map (\<lambda>(page, rank). (page, rank / t)) pr) = sum_values pr / t"
  by (induction pr) (auto simp: sum_values_def add_divide_distrib)

text \<open>
  C8. Whenever \<^verbatim>\<open>sample_pagerank\<close> returns a rank vector, for any corpus, damping
  factor, sample count and draws, the values of that vector add up to 1: the counters
  add up to \<open>1 + n\<close>, which is not zero, and each is divided by that sum. The sum is
  exactly 1 in real arithmetic, hence within \<open>10\<^sup>-\<^sup>6\<close>.
\<close>

theorem sample_pagerank_sums_to_one:
  assumes "sample_pagerank corpus d n rnd = Inr r"
  shows "sum_values r = 1"
proof -
  from assms obtain counts where
    c: "sample_counts corpus d n rnd = Inr counts" and nz: "normalize counts = Inr r"
    by (auto simp: sample_pagerank_def split: sum.splits)
  have pos: "0 < sum_values counts"
    using sample_counts_Inr(3) [OF c] by simp
  from nz pos have "r = map (\<lambda>(page, rank). (page, rank / sum_values counts)) counts"
    by (auto simp: normalize_def Let_def split: if_splits)
  then show ?thesis using pos by (simp add: sum_values_normalized)
qed

theorem sample_pagerank_sums_to_one_witness:
  "sample_pagerank [(''A'', [''B'', ''C'']), (''B'', [''C'']), (''C'', [])] (85 / 100) 5 id =
     Inr [(''A'', 2 / 9), (''B'', 1 / 18), (''C'', 13 / 18)] \<and>
   sum_values [(''A'', 2 / 9), (''B'', 1 / 18), (''C'', 13 / 18)] = 1"
proof -
  have e: "sample_pagerank [(''A'', [''B'', ''C'']), (''B'', [''C'']), (''C'', [])] (85 / 100) 5
      id = Inr [(''A'', 2 / 9), (''B'', 1 / 18), (''C'', 13 / 18)]"
    by code_simp
  from sample_pagerank_sums_to_one [OF e] e show ?thesis by simp
qed

lemma walk_returns:
  assumes "valid_graph corpus" and "d < 1"
  shows "fst ` set pr = fst ` set corpus \<Longrightarrow> \<exists>pr'. walk corpus d k rnd page pr = Inr pr'"
proof (induction k arbitrary: rnd page pr)
  case 0
  then show ?case by simp
next
  case (Suc k)
  have ne: "corpus \<noteq> []" using assms(1) by (simp add: valid_graph_def)
  from transition_model_valid [OF assms(1), of page d] obtain tp where
    tm: "transition_model corpus page d = Inr tp" and
    keys: "fst ` set tp = fst ` set corpus" and
    s: "sum_values tp = (if map_of corpus page = None \<or> map_of corpus page = Some [] then 1 - d else 1)"
    by blast
  have tpne: "map fst tp \<noteq> []" using keys ne by auto
  have pos: "\<not> sum_list (map snd tp) \<le> 0"
    using s assms(2) by (auto simp: sum_values_def split: if_splits)
  let ?page' = "map fst tp ! (rnd 0 mod length (map fst tp))"
  have ch: "choices (map fst tp) (map snd tp) (rnd 0) = Inr ?page'"
    using tpne pos by (simp add: choices_def)
  have "?page' \<in> set (map fst tp)"
    using tpne by (intro nth_mem) simp
  then have mem: "?page' \<in> fst ` set pr" using keys Suc.prems by simp
  then obtain rank where m: "map_of pr ?page' = Some rank"
    by (cases "map_of pr ?page'") (auto simp: map_of_eq_None_iff)
  then have g: "getitem pr ?page' = Inr rank" by (simp add: getitem_Inr)
  have "fst ` set (AList.update ?page' (rank + 1) pr) = fst ` set corpus"
    using mem Suc.prems by (auto simp: dom_update)
  from Suc.IH [OF this] obtain pr' where
    "walk corpus d k (\<lambda>i. rnd (Suc i)) ?page' (AList.update ?page' (rank + 1) pr) = Inr pr'"
    by blast
  then show ?case using tm ch g by simp
qed

lemma sample_counts_returns:
  assumes "valid_graph corpus" and "d < 1"
  shows "\<exists>counts. sample_counts corpus d n rnd = Inr counts"
proof -
  have ne: "map fst corpus \<noteq> []" using assms(1) by (simp add: valid_graph_def)
  let ?init = "map (\<lambda>page. (page, 1 / real (length corpus))) (map fst corpus)"
  have "fst ` set ?init = fst ` set corpus" by force
  from walk_returns [OF assms this] show ?thesis
    using ne by (simp add: sample_counts_def choice_def)
qed

text \<open>
  C10. Whenever the walk of \<^verbatim>\<open>sample_pagerank\<close> reaches the normalisation, the corpus
  is not empty, the sum of the counters it divides by is strictly positive, the call
  returns a rank vector, its keys are all the pages of the corpus, and every rank in it is
  strictly positive, also for a page that was never visited.
\<close>

theorem sample_pagerank_positive:
  assumes "sample_counts corpus d n rnd = Inr counts"
  shows "corpus \<noteq> [] \<and> 0 < sum_values counts \<and>
         (\<exists>r. sample_pagerank corpus d n rnd = Inr r \<and> map fst r = map fst corpus \<and>
            (\<forall>v \<in> snd ` set r. 0 < v))"
proof -
  note c = sample_counts_Inr [OF assms]
  let ?t = "sum_values counts"
  let ?r = "map (\<lambda>(page, rank). (page, rank / ?t)) counts"
  have pos: "0 < ?t" using c(3) by simp
  have sp: "sample_pagerank corpus d n rnd = Inr ?r"
    using pos by (simp add: sample_pagerank_def assms normalize_def)
  have k: "map fst ?r = map fst corpus"
    using c(2) by (simp add: comp_def case_prod_unfold)
  have "\<forall>v \<in> snd ` set ?r. 0 < v"
    using c(4) pos by (auto simp: case_prod_unfold)
  with sp k pos c(1) show ?thesis by blast
qed

theorem sample_pagerank_positive_witness:
  "sample_counts [(''A'', [''B'', ''C'']), (''B'', [''C'']), (''C'', [])] (85 / 100) 2 id =
     Inr [(''A'', 1 / 3), (''B'', 1 / 3), (''C'', 7 / 3)] \<and>
   (0::real) < sum_values [(''A'', 1 / 3), (''B'', 1 / 3), (''C'', 7 / 3)] \<and>
   sample_pagerank [(''A'', [''B'', ''C'']), (''B'', [''C'']), (''C'', [])] (85 / 100) 2 id =
     Inr [(''A'', 1 / 9), (''B'', 1 / 9), (''C'', 7 / 9)]"
proof -
  have e: "sample_counts [(''A'', [''B'', ''C'']), (''B'', [''C'']), (''C'', [])] (85 / 100) 2 id =
     Inr [(''A'', 1 / 3), (''B'', 1 / 3), (''C'', 7 / 3)]"
    by code_simp
  have s: "sample_pagerank [(''A'', [''B'', ''C'']), (''B'', [''C'']), (''C'', [])] (85 / 100) 2 id =
     Inr [(''A'', 1 / 9), (''B'', 1 / 9), (''C'', 7 / 9)]"
    by code_simp
  from sample_pagerank_positive [OF e] e s show ?thesis by simp
qed

text \<open>
  C5. The claim: \<^verbatim>\<open>sample_pagerank\<close> fails with an error when \<open>n < 1\<close> or the graph
  is empty. With \<open>n = 0\<close> on the corpus of one page the call returns the rank vector
  \<open>{A: 1}\<close> and raises nothing.
\<close>

theorem sample_pagerank_zero_samples_no_error:
  "sample_pagerank [(''A'', [])] (85 / 100) 0 id = Inr [(''A'', 1)]"
  by code_simp

text \<open>
  C5, as the code has it. On the empty graph \<^verbatim>\<open>sample_pagerank\<close> fails before any
  result, for every \<open>n\<close>: drawing the start page raises \<^verbatim>\<open>IndexError\<close>. On a graph
  with a page and \<open>n < 1\<close> the walk makes no step and the call returns \<open>1 / N\<close> for
  every page.
\<close>

theorem sample_pagerank_invalid_input:
  "sample_pagerank [] d n rnd = Inl IndexError \<and>
   (corpus \<noteq> [] \<and> n < 1 \<longrightarrow>
      sample_pagerank corpus d n rnd =
        Inr (map (\<lambda>page. (page, 1 / real (length corpus))) (map fst corpus)))"
proof
  show "sample_pagerank [] d n rnd = Inl IndexError"
    by (simp add: sample_pagerank_def sample_counts_def choice_def)
next
  show "corpus \<noteq> [] \<and> n < 1 \<longrightarrow>
      sample_pagerank corpus d n rnd =
        Inr (map (\<lambda>page. (page, 1 / real (length corpus))) (map fst corpus))"
  proof
    assume a: "corpus \<noteq> [] \<and> n < 1"
    let ?init = "map (\<lambda>page. (page, 1 / real (length corpus))) (map fst corpus)"
    have n0: "nat n = 0" using a by simp
    have c: "sample_counts corpus d n rnd = Inr ?init"
      using a by (simp add: sample_counts_def choice_def n0)
    have s: "sum_values ?init = 1"
      using a by (simp add: sum_values_def comp_def sum_list_triv)
    have "normalize ?init = Inr ?init"
      unfolding normalize_def Let_def s by (simp add: comp_def)
    then show "sample_pagerank corpus d n rnd = Inr ?init"
      by (simp add: sample_pagerank_def c)
  qed
qed

theorem sample_pagerank_invalid_input_witness:
  "[(''A'', [''B'']), (''B'', [])] \<noteq> ([] :: corpus) \<and> (0 :: int) < 1 \<and>
   sample_pagerank [(''A'', [''B'']), (''B'', [])] (85 / 100) 0 id =
     Inr [(''A'', 1 / 2), (''B'', 1 / 2)]"
  using sample_pagerank_invalid_input [of "85 / 100" 0 id "[(''A'', [''B'']), (''B'', [])]"]
  by simp

section \<open>Properties of the iterative estimator\<close>

lemma update_absent: "k \<notin> fst ` set al \<Longrightarrow> AList.update k v al = al @ [(k, v)]"
  by (induction al) auto

lemma getitem_corpus:
  "distinct (map fst corpus) \<Longrightarrow> (q, links) \<in> set corpus \<Longrightarrow> getitem corpus q = Inr links"
  by (simp add: getitem_def)

lemma getitem_rank_of:
  "q \<in> fst ` set ranks \<Longrightarrow> getitem ranks q = Inr (rank_of ranks q)"
  by (cases "map_of ranks q") (auto simp: getitem_def rank_of_def map_of_eq_None_iff)

text \<open>The generator sum over a list of pages of the corpus.\<close>

lemma link_sum_eq:
  assumes "distinct (map fst corpus)" and "fst ` set corpus \<subseteq> fst ` set ranks"
  shows "set qs \<subseteq> fst ` set corpus \<Longrightarrow>
    link_sum corpus ranks p qs acc =
      Inr (acc + (\<Sum>q \<leftarrow> filter (\<lambda>q. p \<in> out_links corpus q) qs.
                    rank_of ranks q / real (length (the (map_of corpus q)))))"
proof (induction qs arbitrary: acc)
  case Nil
  then show ?case by simp
next
  case (Cons q qs)
  from Cons.prems obtain links where mem: "(q, links) \<in> set corpus" by auto
  have m: "map_of corpus q = Some links" using assms(1) mem by simp
  have g: "getitem corpus q = Inr links" by (rule getitem_corpus [OF assms(1) mem])
  have "q \<in> fst ` set ranks" using assms(2) mem by force
  then have r: "getitem ranks q = Inr (rank_of ranks q)" by (rule getitem_rank_of)
  have ol: "out_links corpus q = set links" by (simp add: out_links_def m)
  have sub: "set qs \<subseteq> fst ` set corpus" using Cons.prems by simp
  show ?case
    by (simp add: g r ol m Cons.IH [OF sub] add.assoc)
qed

lemma link_sum_spec:
  assumes "wf_corpus corpus" and "fst ` set corpus \<subseteq> fst ` set ranks"
  shows "link_sum corpus ranks p (map fst corpus) 0 =
      Inr (\<Sum>q \<in> {q \<in> set (map fst corpus). p \<in> out_links corpus q}.
             rank_of ranks q / real (card (out_links corpus q)))"
proof -
  let ?P = "\<lambda>q. p \<in> out_links corpus q"
  have dk: "distinct (map fst corpus)" using assms(1) by (simp add: wf_corpus_def)
  have len: "real (length (the (map_of corpus q))) = real (card (out_links corpus q))"
    if "q \<in> set (map fst corpus)" for q
  proof -
    from that obtain links where mem: "(q, links) \<in> set corpus" by auto
    then have m: "map_of corpus q = Some links" using dk by simp
    have "distinct links" using assms(1) mem by (fastforce simp: wf_corpus_def)
    then show ?thesis by (simp add: m out_links_def distinct_card)
  qed
  have "link_sum corpus ranks p (map fst corpus) 0 =
      Inr (0 + (\<Sum>q \<leftarrow> filter ?P (map fst corpus).
                  rank_of ranks q / real (length (the (map_of corpus q)))))"
    by (rule link_sum_eq [OF dk assms(2)]) simp
  also have "(\<Sum>q \<leftarrow> filter ?P (map fst corpus).
                  rank_of ranks q / real (length (the (map_of corpus q)))) =
      (\<Sum>q \<in> set (filter ?P (map fst corpus)).
                  rank_of ranks q / real (length (the (map_of corpus q))))"
    using dk by (intro sum_list_distinct_conv_sum_set) simp
  also have "\<dots> = (\<Sum>q \<in> {q \<in> set (map fst corpus). ?P q}.
             rank_of ranks q / real (card (out_links corpus q)))"
    by (rule sum.cong) (auto simp: len)
  finally show ?thesis by simp
qed

lemma update_ranks_eq:
  assumes "wf_corpus corpus" and "fst ` set corpus \<subseteq> fst ` set ranks"
  shows "distinct ps \<Longrightarrow> set ps \<subseteq> fst ` set corpus \<Longrightarrow> set ps \<inter> fst ` set nr = {} \<Longrightarrow>
    update_ranks corpus d ranks ps (nr, td) =
      Inr (nr @ map (\<lambda>p. (p, spec_new_rank corpus d ranks p)) ps,
           td + (\<Sum>p \<leftarrow> ps. \<bar>spec_new_rank corpus d ranks p - rank_of ranks p\<bar>))"
proof (induction ps arbitrary: nr td)
  case Nil
  then show ?case by simp
next
  case (Cons p ps)
  let ?v = "spec_new_rank corpus d ranks p"
  have dk: "distinct (map fst corpus)" using assms(1) by (simp add: wf_corpus_def)
  have n: "card (set (map fst corpus)) = length corpus"
    using distinct_card [OF dk] by simp
  have "p \<in> fst ` set ranks" using Cons.prems(2) assms(2) by auto
  then have g: "getitem ranks p = Inr (rank_of ranks p)" by (rule getitem_rank_of)
  have "p \<notin> fst ` set nr" using Cons.prems(3) by auto
  then have u: "AList.update p ?v nr = nr @ [(p, ?v)]" by (rule update_absent)
  have "set ps \<inter> fst ` set (nr @ [(p, ?v)]) = {}"
    using Cons.prems(1,3) by auto
  with Cons.IH [of "nr @ [(p, ?v)]"] Cons.prems(1,2)
  have ih: "update_ranks corpus d ranks ps (nr @ [(p, ?v)], td') =
      Inr ((nr @ [(p, ?v)]) @ map (\<lambda>p. (p, spec_new_rank corpus d ranks p)) ps,
           td' + (\<Sum>p \<leftarrow> ps. \<bar>spec_new_rank corpus d ranks p - rank_of ranks p\<bar>))" for td'
    by simp
  have nv: "(1 - d) / real (length corpus) +
      d * (\<Sum>q \<in> {q \<in> set (map fst corpus). p \<in> out_links corpus q}.
             rank_of ranks q / real (card (out_links corpus q))) = ?v"
    by (simp only: spec_new_rank_def n)
  show ?case
    apply (simp only: update_ranks.simps link_sum_spec [OF assms] sum.case Let_def nv g u ih)
    apply (simp add: add.assoc)
    done
qed

lemma update_ranks_spec:
  assumes "wf_corpus corpus" and "fst ` set corpus \<subseteq> fst ` set ranks"
  shows "update_ranks corpus d ranks (map fst corpus) ([], 0) =
           Inr (spec_new_ranks corpus d ranks, spec_total_change corpus d ranks)"
proof -
  have dk: "distinct (map fst corpus)" using assms(1) by (simp add: wf_corpus_def)
  show ?thesis
    using update_ranks_eq [OF assms dk, of "[]" d 0]
    by (simp add: spec_new_ranks_def spec_total_change_def)
qed

lemma keys_spec_new_ranks: "map fst (spec_new_ranks corpus d ranks) = map fst corpus"
  by (simp add: spec_new_ranks_def comp_def)

lemma map_of_tabulate: "p \<in> set ks \<Longrightarrow> map_of (map (\<lambda>p. (p, f p)) ks) p = Some (f p)"
  by (induction ks) auto

lemma rank_of_spec_new_ranks:
  "p \<in> set (map fst corpus) \<Longrightarrow>
   rank_of (spec_new_ranks corpus d ranks) p = spec_new_rank corpus d ranks p"
  by (simp only: rank_of_def spec_new_ranks_def map_of_tabulate option.case)

lemma iterate_bounded_loop:
  "iterate_bounded fuel corpus d ranks = Some x \<Longrightarrow> iterate_loop corpus d ranks = Some x"
proof (induction fuel arbitrary: ranks)
  case 0
  then show ?case by simp
next
  case (Suc fuel)
  show ?case
    using Suc.prems Suc.IH
    by (subst iterate_loop.simps) (auto split: sum.splits prod.splits if_splits)
qed

lemma iterate_loop_result_aux:
  assumes "iterate_loop corpus d ranks = Some y"
  shows "\<forall>r. y = Inr r \<longrightarrow>
     (\<exists>new_ranks total_diff.
        update_ranks corpus d r (map fst corpus) ([], 0) = Inr (new_ranks, total_diff) \<and>
        total_diff < threshold)"
  by (rule iterate_loop.raw_induct [where P = "\<lambda>corpus d ranks y. \<forall>r. y = Inr r \<longrightarrow>
     (\<exists>new_ranks total_diff.
        update_ranks corpus d r (map fst corpus) ([], 0) = Inr (new_ranks, total_diff) \<and>
        total_diff < threshold)", OF _ assms])
    (auto split: sum.splits prod.splits if_splits)

lemma iterate_loop_result:
  "iterate_loop corpus d ranks = Some (Inr r) \<Longrightarrow>
   \<exists>new_ranks total_diff.
     update_ranks corpus d r (map fst corpus) ([], 0) = Inr (new_ranks, total_diff) \<and>
     total_diff < threshold"
  using iterate_loop_result_aux by blast

lemma iterate_bounded_step:
  assumes "wf_corpus corpus" and "map fst ranks = map fst corpus"
  shows "iterate_bounded (Suc fuel) corpus d ranks =
     (if spec_total_change corpus d ranks < threshold then Some (Inr ranks)
      else iterate_bounded fuel corpus d (spec_new_ranks corpus d ranks))"
proof -
  have "fst ` set corpus \<subseteq> fst ` set ranks"
    using assms(2) by (metis set_map subset_refl)
  from update_ranks_spec [OF assms(1) this] show ?thesis by simp
qed

lemma keys_funpow_spec_new_ranks:
  "map fst ranks = map fst corpus \<Longrightarrow>
   map fst ((spec_new_ranks corpus d ^^ k) ranks) = map fst corpus"
  by (induction k) (simp_all add: keys_spec_new_ranks)

lemma iterate_bounded_stops:
  assumes "wf_corpus corpus"
  shows "map fst ranks = map fst corpus \<Longrightarrow>
    spec_total_change corpus d ((spec_new_ranks corpus d ^^ k) ranks) < threshold \<Longrightarrow>
    \<exists>j \<le> k. iterate_bounded (Suc k) corpus d ranks =
                Some (Inr ((spec_new_ranks corpus d ^^ j) ranks))"
proof (induction k arbitrary: ranks)
  case 0
  then have "iterate_bounded (Suc 0) corpus d ranks =
      Some (Inr ((spec_new_ranks corpus d ^^ 0) ranks))"
    by (simp add: iterate_bounded_step [OF assms] del: iterate_bounded.simps)
  then show ?case by blast
next
  case (Suc k)
  show ?case
  proof (cases "spec_total_change corpus d ranks < threshold")
    case True
    then have "iterate_bounded (Suc (Suc k)) corpus d ranks =
        Some (Inr ((spec_new_ranks corpus d ^^ 0) ranks))"
      by (simp add: iterate_bounded_step [OF assms Suc.prems(1)] del: iterate_bounded.simps)
    then show ?thesis by blast
  next
    case False
    let ?r = "spec_new_ranks corpus d ranks"
    have k': "map fst ?r = map fst corpus" by (rule keys_spec_new_ranks)
    have "spec_total_change corpus d ((spec_new_ranks corpus d ^^ k) ?r) < threshold"
      using Suc.prems(2) by (simp add: funpow_swap1)
    from Suc.IH [OF k' this] obtain j where j: "j \<le> k" and
      e: "iterate_bounded (Suc k) corpus d ?r = Some (Inr ((spec_new_ranks corpus d ^^ j) ?r))"
      by blast
    have "iterate_bounded (Suc (Suc k)) corpus d ranks =
        Some (Inr ((spec_new_ranks corpus d ^^ Suc j) ranks))"
      using False e
      by (simp add: iterate_bounded_step [OF assms Suc.prems(1)] funpow_swap1
          del: iterate_bounded.simps)
    then show ?thesis using j by (intro exI [of _ "Suc j"]) simp
  qed
qed

lemma spec_new_rank_cong:
  assumes "\<And>q. q \<in> set (map fst corpus) \<Longrightarrow> p \<in> out_links corpus q \<Longrightarrow>
             rank_of r q = rank_of r' q"
  shows "spec_new_rank corpus d r p = spec_new_rank corpus d r' p"
proof -
  have "(\<Sum>q \<in> {q \<in> set (map fst corpus). p \<in> out_links corpus q}.
            rank_of r q / real (card (out_links corpus q))) =
        (\<Sum>q \<in> {q \<in> set (map fst corpus). p \<in> out_links corpus q}.
            rank_of r' q / real (card (out_links corpus q)))"
    by (rule sum.cong) (auto simp: assms)
  then show ?thesis by (simp only: spec_new_rank_def)
qed

lemma acyclic_stable:
  assumes edge: "\<And>q p. q \<in> set (map fst corpus) \<Longrightarrow> p \<in> set (map fst corpus) \<Longrightarrow>
                   p \<in> out_links corpus q \<Longrightarrow> lvl q < (lvl p :: nat)"
  shows "p \<in> set (map fst corpus) \<Longrightarrow> lvl p < k \<Longrightarrow>
    rank_of ((spec_new_ranks corpus d ^^ Suc k) r) p =
    rank_of ((spec_new_ranks corpus d ^^ k) r) p"
proof (induction k arbitrary: p)
  case 0
  then show ?case by simp
next
  case (Suc k)
  let ?f = "spec_new_ranks corpus d"
  have "spec_new_rank corpus d ((?f ^^ Suc k) r) p = spec_new_rank corpus d ((?f ^^ k) r) p"
  proof (rule spec_new_rank_cong)
    fix q assume q: "q \<in> set (map fst corpus)" and l: "p \<in> out_links corpus q"
    have "lvl q < lvl p" using edge [OF q Suc.prems(1) l] .
    then have "lvl q < k" using Suc.prems(2) by simp
    from Suc.IH [OF q this] show "rank_of ((?f ^^ Suc k) r) q = rank_of ((?f ^^ k) r) q" .
  qed
  then show ?case
    using Suc.prems(1) by (simp add: rank_of_spec_new_ranks)
qed

lemma sum_list_all_zero:
  "(\<And>x. x \<in> set xs \<Longrightarrow> f x = (0::real)) \<Longrightarrow> (\<Sum>x \<leftarrow> xs. f x) = 0"
  by (induction xs) auto

lemma acyclic_no_change:
  assumes edge: "\<And>q p. q \<in> set (map fst corpus) \<Longrightarrow> p \<in> set (map fst corpus) \<Longrightarrow>
                   p \<in> out_links corpus q \<Longrightarrow> lvl q < (lvl p :: nat)"
    and bound: "\<And>p. p \<in> set (map fst corpus) \<Longrightarrow> lvl p < B"
  shows "spec_total_change corpus d ((spec_new_ranks corpus d ^^ B) r) = 0"
proof -
  let ?f = "spec_new_ranks corpus d"
  have "\<bar>spec_new_rank corpus d ((?f ^^ B) r) p - rank_of ((?f ^^ B) r) p\<bar> = 0"
    if p: "p \<in> set (map fst corpus)" for p
  proof -
    have "rank_of ((?f ^^ Suc B) r) p = rank_of ((?f ^^ B) r) p"
    proof (rule acyclic_stable [where lvl = lvl])
      show "lvl q < lvl p'" if "q \<in> set (map fst corpus)" "p' \<in> set (map fst corpus)"
        "p' \<in> out_links corpus q" for q p'
        using that by (rule edge)
      show "p \<in> set (map fst corpus)" by (rule p)
      show "lvl p < B" by (rule bound [OF p])
    qed
    then show ?thesis using p by (simp add: rank_of_spec_new_ranks)
  qed
  then show ?thesis
    unfolding spec_total_change_def by (rule sum_list_all_zero)
qed

lemma threshold_pos: "0 < threshold"
  by (simp add: threshold_def)

text \<open>Levels that rise along every link can be taken below the number of pages.\<close>

lemma compress_levels:
  fixes lvl :: "page \<Rightarrow> nat" and corpus :: corpus
  defines "lvl' \<equiv> \<lambda>p. card {x \<in> set (map fst corpus). lvl x < lvl p}"
  shows "q \<in> set (map fst corpus) \<Longrightarrow> lvl q < lvl p \<Longrightarrow> lvl' q < lvl' p"
    and "p \<in> set (map fst corpus) \<Longrightarrow> lvl' p < length corpus"
proof -
  let ?K = "set (map fst corpus)"
  show "lvl' q < lvl' p" if "q \<in> ?K" "lvl q < lvl p"
  proof -
    have "{x \<in> ?K. lvl x < lvl q} \<subset> {x \<in> ?K. lvl x < lvl p}"
      using that by auto
    then show ?thesis
      unfolding lvl'_def by (intro psubset_card_mono) auto
  qed
  show "lvl' p < length corpus" if "p \<in> ?K"
  proof -
    have "{x \<in> ?K. lvl x < lvl p} \<subset> ?K" using that by auto
    then have "lvl' p < card ?K"
      unfolding lvl'_def by (intro psubset_card_mono) auto
    also have "card ?K \<le> length (map fst corpus)" by (rule card_length)
    finally show ?thesis by simp
  qed
qed

lemma iterate_pagerank_acyclic_terminates:
  fixes lvl :: "page \<Rightarrow> nat"
  assumes "wf_corpus corpus" and "corpus \<noteq> []"
    and edges: "\<forall>(q, links) \<in> set corpus. \<forall>p \<in> set links. lvl q < lvl p"
  shows "\<exists>r. iterate_bounded (Suc (length corpus)) corpus d
                (map (\<lambda>page. (page, 1 / real (length corpus))) (map fst corpus)) = Some (Inr r) \<and>
              iterate_pagerank corpus d = Some (Inr r)"
proof -
  let ?init = "map (\<lambda>page. (page, 1 / real (length corpus))) (map fst corpus)"
  let ?lvl' = "\<lambda>p. card {x \<in> set (map fst corpus). lvl x < lvl p}"
  have ki: "map fst ?init = map fst corpus" by (simp add: comp_def)
  have edge: "?lvl' q < ?lvl' p"
    if q: "q \<in> set (map fst corpus)" and "p \<in> set (map fst corpus)"
      and l: "p \<in> out_links corpus q" for q p
  proof -
    from l obtain links where m: "map_of corpus q = Some links" and pl: "p \<in> set links"
      by (auto simp: out_links_def split: option.splits)
    have "(q, links) \<in> set corpus" using m by (rule map_of_SomeD)
    with edges pl have "lvl q < lvl p" by fastforce
    with q show ?thesis by (rule compress_levels(1))
  qed
  have bound: "?lvl' p < length corpus" if "p \<in> set (map fst corpus)" for p
    using that by (rule compress_levels(2))
  have "spec_total_change corpus d ((spec_new_ranks corpus d ^^ length corpus) ?init) = 0"
  proof (rule acyclic_no_change [where lvl = ?lvl'])
    show "?lvl' q < ?lvl' p" if "q \<in> set (map fst corpus)" "p \<in> set (map fst corpus)"
      "p \<in> out_links corpus q" for q p
      using that by (rule edge)
    show "?lvl' p < length corpus" if "p \<in> set (map fst corpus)" for p
      using that by (rule bound)
  qed
  then have "spec_total_change corpus d ((spec_new_ranks corpus d ^^ length corpus) ?init)
      < threshold"
    using threshold_pos by simp
  from iterate_bounded_stops [OF assms(1) ki this] obtain j where
    b: "iterate_bounded (Suc (length corpus)) corpus d ?init =
          Some (Inr ((spec_new_ranks corpus d ^^ j) ?init))"
    by blast
  from iterate_bounded_loop [OF b] have
    "iterate_pagerank corpus d = Some (Inr ((spec_new_ranks corpus d ^^ j) ?init))"
    using assms(2) by (simp add: iterate_pagerank_def)
  with b show ?thesis by blast
qed

text \<open>
  C9. With the damping factor 1, on every corpus that has a page, no repeated pages or
  links and no cycle (some numbering of the pages rises along every link; such a graph
  has a page without out-links), \<^verbatim>\<open>iterate_pagerank\<close> returns a rank vector, after at
  most \<open>N + 1\<close> iterations. The code does not reject the damping factor 1.
\<close>

theorem iterate_pagerank_damping_one_terminates:
  fixes lvl :: "page \<Rightarrow> nat"
  assumes "wf_corpus corpus" and "corpus \<noteq> []"
    and "\<forall>(q, links) \<in> set corpus. \<forall>p \<in> set links. lvl q < lvl p"
  shows "\<exists>r. iterate_bounded (Suc (length corpus)) corpus 1
                (map (\<lambda>page. (page, 1 / real (length corpus))) (map fst corpus)) = Some (Inr r) \<and>
              iterate_pagerank corpus 1 = Some (Inr r)"
  using assms by (rule iterate_pagerank_acyclic_terminates)

theorem iterate_pagerank_damping_one_terminates_witness:
  "wf_corpus [(''A'', [''B'', ''C'']), (''B'', [''C'']), (''C'', [])] \<and>
   iterate_bounded 4 [(''A'', [''B'', ''C'']), (''B'', [''C'']), (''C'', [])] 1
     [(''A'', 1 / 3), (''B'', 1 / 3), (''C'', 1 / 3)] =
     Some (Inr [(''A'', 0), (''B'', 0), (''C'', 0)]) \<and>
   iterate_pagerank [(''A'', [''B'', ''C'']), (''B'', [''C'']), (''C'', [])] 1 =
     Some (Inr [(''A'', 0), (''B'', 0), (''C'', 0)])"
proof -
  let ?G = "[(''A'', [''B'', ''C'']), (''B'', [''C'']), (''C'', [])] :: corpus"
  let ?lvl = "\<lambda>p :: page. if p = ''A'' then 0 else if p = ''B'' then 1 else (2 :: nat)"
  have w: "wf_corpus ?G" by (simp add: wf_corpus_def)
  have n: "?G \<noteq> []" by simp
  have e: "\<forall>(q, links) \<in> set ?G. \<forall>p \<in> set links. ?lvl q < ?lvl p" by simp
  have v: "iterate_pagerank ?G 1 = Some (Inr [(''A'', 0), (''B'', 0), (''C'', 0)])"
    by code_simp
  from iterate_pagerank_damping_one_terminates [OF w n e] v w show ?thesis
    by (auto simp: numeral_eq_Suc)
qed

text \<open>
  C3. The claim: the rank vector returned by \<^verbatim>\<open>iterate_pagerank\<close> adds up to 1 within
  \<open>10\<^sup>-\<^sup>6\<close> and is a fixed point of the update rule within the threshold. On the
  three pages \<open>A \<rightarrow> B, C\<close>, \<open>B \<rightarrow> C\<close> and \<open>C\<close> without links, with the damping factor
  \<open>0.85\<close>, the loop stops after four iterations and returns \<open>0.05\<close>, \<open>0.07125\<close> and
  \<open>0.1318125\<close>, which add up to \<open>0.2530625\<close>: the rank of a page without out-links is
  passed on to no page.
\<close>

theorem iterate_pagerank_sink_sum:
  "iterate_pagerank [(''A'', [''B'', ''C'']), (''B'', [''C'']), (''C'', [])] (85 / 100) =
     Some (Inr [(''A'', 1 / 20), (''B'', 57 / 800), (''C'', 2109 / 16000)]) \<and>
   sum_values [(''A'', 1 / 20), (''B'', 57 / 800), (''C'', 2109 / 16000)] = 4049 / 16000 \<and>
   \<not> \<bar>sum_values [(''A'', 1 / 20), (''B'', 57 / 800), (''C'', 2109 / 16000)] - 1\<bar> \<le> 1 / 10 ^ 6"
proof -
  have "iterate_pagerank [(''A'', [''B'', ''C'']), (''B'', [''C'']), (''C'', [])] (85 / 100) =
     Some (Inr [(''A'', 1 / 20), (''B'', 57 / 800), (''C'', 2109 / 16000)])"
    by code_simp
  then show ?thesis by (simp add: sum_values_def)
qed

text \<open>
  C4. The claim: an iteration first replaces the rank vector by the new one and then
  tests the change, so the vector returned is the new one of the last iteration. On the
  single page \<open>A\<close> with the damping factor \<open>0.0001\<close> the first iteration computes
  \<open>0.9999\<close> from the rank \<open>1\<close>, the change \<open>0.0001\<close> is below the threshold, and
  the call returns the rank \<open>1\<close>.
\<close>

theorem iterate_pagerank_returns_old_vector:
  "iterate_pagerank [(''A'', [])] (1 / 10000) = Some (Inr [(''A'', 1)]) \<and>
   update_ranks [(''A'', [])] (1 / 10000) [(''A'', 1)] [''A''] ([], 0) =
     Inr ([(''A'', 9999 / 10000)], 1 / 10000)"
  by code_simp

text \<open>
  C4, as the code has it. An iteration computes the new vector and the total change from
  the current vector. When the change is below the threshold the loop stops and returns the
  current vector, which the new one has not replaced; otherwise the new vector becomes
  the current one and the loop goes on. So the vector that \<^verbatim>\<open>iterate_pagerank\<close>
  returns is the one the last update was computed from, and that update changes it by less
  than the threshold.
\<close>

theorem iterate_pagerank_returns_predecessor:
  "(update_ranks corpus d ranks (map fst corpus) ([], 0) = Inr (new_ranks, total_diff) \<and>
    total_diff < threshold \<longrightarrow> iterate_loop corpus d ranks = Some (Inr ranks)) \<and>
   (update_ranks corpus d ranks (map fst corpus) ([], 0) = Inr (new_ranks, total_diff) \<and>
    \<not> total_diff < threshold \<longrightarrow>
      iterate_loop corpus d ranks = iterate_loop corpus d new_ranks) \<and>
   (iterate_pagerank corpus d = Some (Inr r) \<longrightarrow>
      (\<exists>new_ranks' total_diff'.
         update_ranks corpus d r (map fst corpus) ([], 0) = Inr (new_ranks', total_diff') \<and>
         total_diff' < threshold))"
proof (intro conjI impI)
  assume "update_ranks corpus d ranks (map fst corpus) ([], 0) = Inr (new_ranks, total_diff) \<and>
    total_diff < threshold"
  then show "iterate_loop corpus d ranks = Some (Inr ranks)"
    by (subst iterate_loop.simps) simp
next
  assume "update_ranks corpus d ranks (map fst corpus) ([], 0) = Inr (new_ranks, total_diff) \<and>
    \<not> total_diff < threshold"
  then show "iterate_loop corpus d ranks = iterate_loop corpus d new_ranks"
    by (subst iterate_loop.simps) simp
next
  assume "iterate_pagerank corpus d = Some (Inr r)"
  then have "iterate_loop corpus d
      (map (\<lambda>page. (page, 1 / real (length corpus))) (map fst corpus)) = Some (Inr r)"
    by (simp add: iterate_pagerank_def Let_def split: if_splits)
  then show "\<exists>new_ranks' total_diff'.
         update_ranks corpus d r (map fst corpus) ([], 0) = Inr (new_ranks', total_diff') \<and>
         total_diff' < threshold"
    by (rule iterate_loop_result)
qed

theorem iterate_pagerank_returns_predecessor_witness:
  "iterate_pagerank [(''A'', [''B'']), (''B'', [])] (1 / 2) =
     Some (Inr [(''A'', 1 / 4), (''B'', 3 / 8)]) \<and>
   (\<exists>new_ranks total_diff.
      update_ranks [(''A'', [''B'']), (''B'', [])] (1 / 2) [(''A'', 1 / 4), (''B'', 3 / 8)]
        (map fst [(''A'', [''B'']), (''B'', [])]) ([], 0) = Inr (new_ranks, total_diff) \<and>
      total_diff < threshold)"
proof -
  have e: "iterate_pagerank [(''A'', [''B'']), (''B'', [])] (1 / 2) =
     Some (Inr [(''A'', 1 / 4), (''B'', 3 / 8)])"
    by code_simp
  have "iterate_pagerank [(''A'', [''B'']), (''B'', [])] (1 / 2) =
      Some (Inr [(''A'', 1 / 4), (''B'', 3 / 8)]) \<longrightarrow>
    (\<exists>new_ranks total_diff.
      update_ranks [(''A'', [''B'']), (''B'', [])] (1 / 2) [(''A'', 1 / 4), (''B'', 3 / 8)]
        (map fst [(''A'', [''B'']), (''B'', [])]) ([], 0) = Inr (new_ranks, total_diff) \<and>
      total_diff < threshold)"
    using iterate_pagerank_returns_predecessor
      [of "[(''A'', [''B'']), (''B'', [])]" "1 / 2" "[]" "[]" 0 "[(''A'', 1 / 4), (''B'', 3 / 8)]"]
    by (elim conjE)
  with e show ?thesis by (intro conjI) (rule e, erule mp, rule e)
qed

text \<open>
  C6. On a corpus without repeated pages or links, and a rank vector whose keys are the
  pages of the corpus, one pass of the loop over the pages returns the new rank vector and
  the total change of the specification: for every page \<open>p\<close>,
  \<open>(1 - damping) / N\<close> plus \<open>damping\<close> times the sum, over exactly the pages \<open>q\<close> whose
  out-links contain \<open>p\<close>, of \<open>rank(q) / out_degree(q)\<close>, all ranks read from the vector
  the pass started with. The keys of the new vector are again the pages of the corpus, as
  those of the initial vector are, so this holds in every iteration. A page without
  out-links adds to no sum: two rank vectors that agree on the pages with out-links give
  the same new vector.
\<close>

theorem update_ranks_follows_rule:
  assumes "wf_corpus corpus" and "map fst ranks = map fst corpus"
  shows "update_ranks corpus d ranks (map fst corpus) ([], 0) =
           Inr (spec_new_ranks corpus d ranks, spec_total_change corpus d ranks) \<and>
         map fst (spec_new_ranks corpus d ranks) = map fst corpus \<and>
         (\<forall>ranks'. map fst ranks' = map fst corpus \<and>
            (\<forall>q \<in> set (map fst corpus).
               out_links corpus q \<noteq> {} \<longrightarrow> rank_of ranks' q = rank_of ranks q) \<longrightarrow>
            spec_new_ranks corpus d ranks' = spec_new_ranks corpus d ranks)"
proof (intro conjI allI impI)
  have "fst ` set corpus \<subseteq> fst ` set ranks"
    using assms(2) by (metis set_map subset_refl)
  then show "update_ranks corpus d ranks (map fst corpus) ([], 0) =
           Inr (spec_new_ranks corpus d ranks, spec_total_change corpus d ranks)"
    by (rule update_ranks_spec [OF assms(1)])
next
  show "map fst (spec_new_ranks corpus d ranks) = map fst corpus"
    by (rule keys_spec_new_ranks)
next
  fix ranks'
  assume a: "map fst ranks' = map fst corpus \<and>
            (\<forall>q \<in> set (map fst corpus).
               out_links corpus q \<noteq> {} \<longrightarrow> rank_of ranks' q = rank_of ranks q)"
  have "spec_new_rank corpus d ranks' p = spec_new_rank corpus d ranks p" for p
  proof (rule spec_new_rank_cong)
    fix q assume "q \<in> set (map fst corpus)" and "p \<in> out_links corpus q"
    moreover from this(2) have "out_links corpus q \<noteq> {}" by blast
    ultimately show "rank_of ranks' q = rank_of ranks q" using a by blast
  qed
  then show "spec_new_ranks corpus d ranks' = spec_new_ranks corpus d ranks"
    by (simp add: spec_new_ranks_def)
qed

theorem update_ranks_follows_rule_witness:
  "wf_corpus [(''A'', [''B'', ''C'']), (''B'', [''C'']), (''C'', [])] \<and>
   update_ranks [(''A'', [''B'', ''C'']), (''B'', [''C'']), (''C'', [])] (85 / 100)
     [(''A'', 1 / 3), (''B'', 1 / 3), (''C'', 1 / 3)] [''A'', ''B'', ''C''] ([], 0) =
     Inr ([(''A'', 1 / 20), (''B'', 23 / 120), (''C'', 19 / 40)], 17 / 30) \<and>
   spec_new_ranks [(''A'', [''B'', ''C'']), (''B'', [''C'']), (''C'', [])] (85 / 100)
     [(''A'', 1 / 3), (''B'', 1 / 3), (''C'', 1 / 3)] =
     [(''A'', 1 / 20), (''B'', 23 / 120), (''C'', 19 / 40)]"
proof -
  let ?G = "[(''A'', [''B'', ''C'']), (''B'', [''C'']), (''C'', [])] :: corpus"
  let ?r = "[(''A'', 1 / 3), (''B'', 1 / 3), (''C'', 1 / 3)] :: dist"
  have w: "wf_corpus ?G" by (simp add: wf_corpus_def)
  have k: "map fst ?r = map fst ?G" by simp
  have u: "update_ranks ?G (85 / 100) ?r [''A'', ''B'', ''C''] ([], 0) =
     Inr ([(''A'', 1 / 20), (''B'', 23 / 120), (''C'', 19 / 40)], 17 / 30)"
    by code_simp
  have "update_ranks ?G (85 / 100) ?r (map fst ?G) ([], 0) =
      Inr (spec_new_ranks ?G (85 / 100) ?r, spec_total_change ?G (85 / 100) ?r)"
    using update_ranks_follows_rule [OF w k, of "85 / 100"] by (rule conjunct1)
  with u have "spec_new_ranks ?G (85 / 100) ?r =
      [(''A'', 1 / 20), (''B'', 23 / 120), (''C'', 19 / 40)]"
    by simp
  with u w show ?thesis by (intro conjI)
qed

end
